theory Spec2Isabelle
  imports Complex_Main "HOL-Library.Word"
begin

section \<open>A proof-of-work ledger: blocks, mining, validation, chain linkage\<close>

text \<open>
  The Go package \<^verbatim>\<open>blockchain\<close> (files \<^verbatim>\<open>block.go\<close>, \<^verbatim>\<open>blockchain.go\<close>,
  \<^verbatim>\<open>proof.go\<close>) is embedded function by function.

  \<^item> A Go \<^verbatim>\<open>string\<close> is a sequence of bytes: it is a \<^typ>\<open>string\<close> here (a list of
    8-bit characters). A \<^verbatim>\<open>[]byte\<close> is a list of 8-bit words; the conversions
    \<^verbatim>\<open>[]byte(s)\<close> and \<^verbatim>\<open>string(bs)\<close> are written out.
  \<^item> A Go \<^verbatim>\<open>int\<close> is a 64-bit word (the 64-bit platforms): \<^verbatim>\<open>nonce++\<close> wraps
    around, \<^verbatim>\<open>uint64(nonce)\<close> keeps the bits.
  \<^item> A \<^verbatim>\<open>big.Int\<close> is an \<^typ>\<open>int\<close>.
  \<^item> \<^verbatim>\<open>md5.Sum\<close> belongs to the Go standard library, not to this repository: it is a
    parameter \<open>md5_Sum\<close> of every function that calls it. Its result type
    \<^verbatim>\<open>[16]byte\<close> is a 128-bit word, whose sixteen bytes are read most significant
    first when the array is sliced.
  \<^item> \<^verbatim>\<open>rand.Intn(10000)\<close> in \<^verbatim>\<open>CreateBlock\<close> is a parameter \<open>initialNonce\<close>.
  \<^item> The loop of \<^verbatim>\<open>MineBlock\<close> has no bound: it is a partial function into
    \<^typ>\<open>'a option\<close>, where \<^term>\<open>None\<close> stands for a search that never returns.
  \<^item> The console output (\<^verbatim>\<open>fmt.Printf\<close>) is left out.
\<close>

subsection \<open>Data model\<close>

type_synonym byte = "8 word"

type_synonym go_int = "64 word"

type_synonym array16 = "128 word"

text \<open>\<^verbatim>\<open>Amount float64\<close>: the code only ever stores the literals \<^verbatim>\<open>0.0\<close> and \<^verbatim>\<open>10.0\<close>
  itself, both exact; no arithmetic is done on amounts.\<close>

record Transaction =
  Sender :: string
  Receiver :: string
  Amount :: real
  Coinbase :: bool

record Block =
  Hash :: string
  Data :: string
  PrevHash :: string
  Nonce :: go_int
  Transactions :: "Transaction list"

record Blockchain =
  Blocks :: "Block list"

record ProofOfWork =
  Block :: Block
  Target :: int

subsection \<open>Bytes, strings and big integers\<close>

definition bytes_of_string :: "string \<Rightarrow> byte list" where
  "bytes_of_string s = map of_char s"

definition string_of_bytes :: "byte list \<Rightarrow> string" where
  "string_of_bytes bs = map (\<lambda>b. char_of (unat b)) bs"

text \<open>Slicing a \<^verbatim>\<open>[16]byte\<close> (\<^verbatim>\<open>computedHash[:]\<close>): its sixteen bytes in order.\<close>

definition slice16 :: "array16 \<Rightarrow> byte list" where
  "slice16 a =
     [ucast (drop_bit 120 a), ucast (drop_bit 112 a), ucast (drop_bit 104 a),
      ucast (drop_bit 96 a), ucast (drop_bit 88 a), ucast (drop_bit 80 a),
      ucast (drop_bit 72 a), ucast (drop_bit 64 a), ucast (drop_bit 56 a),
      ucast (drop_bit 48 a), ucast (drop_bit 40 a), ucast (drop_bit 32 a),
      ucast (drop_bit 24 a), ucast (drop_bit 16 a), ucast (drop_bit 8 a), ucast a]"

text \<open>\<^verbatim>\<open>binary.BigEndian.PutUint64\<close>: the eight bytes it writes.\<close>

definition PutUint64 :: "64 word \<Rightarrow> byte list" where
  "PutUint64 v =
     [ucast (drop_bit 56 v), ucast (drop_bit 48 v), ucast (drop_bit 40 v),
      ucast (drop_bit 32 v), ucast (drop_bit 24 v), ucast (drop_bit 16 v),
      ucast (drop_bit 8 v), ucast v]"

text \<open>Writing \<open>vs\<close> into the buffer \<open>buf\<close> from offset \<open>off\<close> on, as
  \<^verbatim>\<open>PutUint64(data[off:], v)\<close> does in place.\<close>

definition write_at :: "byte list \<Rightarrow> nat \<Rightarrow> byte list \<Rightarrow> byte list" where
  "write_at buf off vs = take off buf @ vs @ drop (off + length vs) buf"

text \<open>\<^verbatim>\<open>big.Int.SetBytes\<close>: the bytes as a big-endian unsigned integer.\<close>

definition SetBytes :: "byte list \<Rightarrow> int" where
  "SetBytes bs = foldl (\<lambda>acc b. acc * 256 + uint b) 0 bs"

text \<open>\<^verbatim>\<open>big.Int.Cmp\<close>.\<close>

definition Cmp :: "int \<Rightarrow> int \<Rightarrow> int" where
  "Cmp x y = (if x < y then - 1 else if x = y then 0 else 1)"

subsection \<open>proof.go\<close>

definition Difficulty :: nat where
  "Difficulty = 10"

definition NewProofOfWork :: "Block \<Rightarrow> ProofOfWork" where
  "NewProofOfWork block = \<lparr>Block = block, Target = push_bit (256 - Difficulty) 1\<rparr>"

text \<open>The target as a function of the value \<open>d\<close> given to the constant
  \<^verbatim>\<open>Difficulty\<close>. The operand of \<^verbatim>\<open>uint(256-Difficulty)\<close> is a constant expression:
  for \<open>d > 256\<close> it is negative, the conversion is rejected when the package is compiled,
  and there is no target.\<close>

definition target_for :: "nat \<Rightarrow> int option" where
  "target_for d = (if d \<le> 256 then Some (push_bit (256 - d) 1) else None)"

definition ComputeData :: "ProofOfWork \<Rightarrow> go_int \<Rightarrow> byte list" where
  "ComputeData pow nonce =
     (let data = concat [bytes_of_string (PrevHash (Block pow)),
                         bytes_of_string (Data (Block pow)),
                         replicate 8 0,
                         replicate 8 0];
          data = write_at data (length data - 16) (PutUint64 nonce);
          data = write_at data (length data - 8) (PutUint64 (of_nat Difficulty))
      in data)"

partial_function (option) MineBlock_loop ::
  "(byte list \<Rightarrow> array16) \<Rightarrow> ProofOfWork \<Rightarrow> go_int \<Rightarrow> (go_int \<times> byte list) option" where
  "MineBlock_loop md5_Sum pow nonce =
     (let computedData = ComputeData pow nonce;
          computedHash = md5_Sum computedData;
          intHash = SetBytes (slice16 computedHash)
      in if Cmp intHash (Target pow) = - 1 then Some (nonce, slice16 computedHash)
         else MineBlock_loop md5_Sum pow (nonce + 1))"

declare MineBlock_loop.simps [code]

definition MineBlock ::
  "(byte list \<Rightarrow> array16) \<Rightarrow> ProofOfWork \<Rightarrow> (go_int \<times> byte list) option" where
  "MineBlock md5_Sum pow = MineBlock_loop md5_Sum pow 0"

definition Validate :: "(byte list \<Rightarrow> array16) \<Rightarrow> ProofOfWork \<Rightarrow> bool" where
  "Validate md5_Sum pow =
     (let computedData = ComputeData pow (Nonce (Block pow));
          computedHash = md5_Sum computedData;
          intHash = SetBytes (slice16 computedHash)
      in if Cmp intHash (Target pow) = - 1 then True else False)"

subsection \<open>block.go and blockchain.go\<close>

definition CreateBlock ::
  "(byte list \<Rightarrow> array16) \<Rightarrow> go_int \<Rightarrow> string \<Rightarrow> string \<Rightarrow> Transaction list \<Rightarrow> Block option" where
  "CreateBlock md5_Sum initialNonce data prevHash transactions =
     (let block = \<lparr>Hash = [], Data = data, PrevHash = prevHash, Nonce = initialNonce,
                    Transactions = transactions\<rparr>;
          newPow = NewProofOfWork block
      in case MineBlock md5_Sum newPow of
           None \<Rightarrow> None
         | Some (nonce, hash) \<Rightarrow>
             Some (block\<lparr>Hash := string_of_bytes hash, Nonce := nonce\<rparr>))"

definition Genesis :: "(byte list \<Rightarrow> array16) \<Rightarrow> go_int \<Rightarrow> Block option" where
  "Genesis md5_Sum initialNonce =
     (let coinbaseTransaction =
            \<lparr>Sender = ''Coinbase'', Receiver = ''Genesis'', Amount = 0, Coinbase = True\<rparr>
      in CreateBlock md5_Sum initialNonce ''Genesis'' [] [coinbaseTransaction])"

definition InitBlockChain :: "(byte list \<Rightarrow> array16) \<Rightarrow> go_int \<Rightarrow> Blockchain option" where
  "InitBlockChain md5_Sum initialNonce =
     (case Genesis md5_Sum initialNonce of
        None \<Rightarrow> None
      | Some g \<Rightarrow> Some \<lparr>Blocks = [g]\<rparr>)"

text \<open>\<^verbatim>\<open>chain.Blocks[len(chain.Blocks)-1]\<close> panics on an empty slice.\<close>

datatype panic = IndexOutOfRange

definition AddBlock ::
  "(byte list \<Rightarrow> array16) \<Rightarrow> go_int \<Rightarrow> Blockchain \<Rightarrow> string \<Rightarrow> string \<Rightarrow> Transaction list
   \<Rightarrow> (panic + Blockchain) option" where
  "AddBlock md5_Sum initialNonce chain data coinbaseRcpt transactions =
     (if Blocks chain = [] then Some (Inl IndexOutOfRange)
      else
        let prevBlock = Blocks chain ! (length (Blocks chain) - 1);
            coinbaseTransaction =
              \<lparr>Sender = ''Coinbase'', Receiver = coinbaseRcpt, Amount = 10, Coinbase = True\<rparr>
        in case CreateBlock md5_Sum initialNonce data (Hash prevBlock)
                  ([coinbaseTransaction] @ transactions) of
             None \<Rightarrow> None
           | Some newBlock \<Rightarrow> Some (Inr (chain\<lparr>Blocks := Blocks chain @ [newBlock]\<rparr>)))"

subsection \<open>The mining predicate in the words of the specification\<close>

text \<open>\<open>digest = hash(computeTranscript(block, nonce, difficulty))\<close>, and the digest
  read as an unsigned big integer is strictly less than the target.\<close>

definition digest_at :: "(byte list \<Rightarrow> array16) \<Rightarrow> ProofOfWork \<Rightarrow> go_int \<Rightarrow> byte list" where
  "digest_at md5_Sum pow nonce = slice16 (md5_Sum (ComputeData pow nonce))"

definition meets_target :: "(byte list \<Rightarrow> array16) \<Rightarrow> ProofOfWork \<Rightarrow> go_int \<Rightarrow> bool" where
  "meets_target md5_Sum pow nonce \<longleftrightarrow> SetBytes (digest_at md5_Sum pow nonce) < Target pow"

subsection \<open>The transcript layout in the words of the specification\<close>

text \<open>A number as eight bytes, most significant first.\<close>

definition big_endian8 :: "nat \<Rightarrow> byte list" where
  "big_endian8 n =
     [of_nat (n div 256 ^ 7 mod 256), of_nat (n div 256 ^ 6 mod 256),
      of_nat (n div 256 ^ 5 mod 256), of_nat (n div 256 ^ 4 mod 256),
      of_nat (n div 256 ^ 3 mod 256), of_nat (n div 256 ^ 2 mod 256),
      of_nat (n div 256 mod 256), of_nat (n mod 256)]"

text \<open>\<open>prevHash \<parallel> data \<parallel> nonce (8 bytes, big-endian) \<parallel> difficulty (8 bytes,
  big-endian)\<close>.\<close>

definition computeTranscript :: "byte list \<Rightarrow> byte list \<Rightarrow> nat \<Rightarrow> nat \<Rightarrow> byte list" where
  "computeTranscript prevHash data nonce difficulty =
     prevHash @ data @ big_endian8 nonce @ big_endian8 difficulty"

subsection \<open>Ledgers built by a run of the program\<close>

text \<open>One call of \<^verbatim>\<open>AddBlock\<close>: the random start nonce drawn inside it, and its three
  arguments.\<close>

type_synonym call = "go_int \<times> string \<times> string \<times> Transaction list"

fun AddBlocks ::
  "(byte list \<Rightarrow> array16) \<Rightarrow> Blockchain \<Rightarrow> call list \<Rightarrow> (panic + Blockchain) option" where
  "AddBlocks md5_Sum chain [] = Some (Inr chain)"
| "AddBlocks md5_Sum chain ((initialNonce, data, coinbaseRcpt, transactions) # calls) =
     (case AddBlock md5_Sum initialNonce chain data coinbaseRcpt transactions of
        None \<Rightarrow> None
      | Some (Inl p) \<Rightarrow> Some (Inl p)
      | Some (Inr chain') \<Rightarrow> AddBlocks md5_Sum chain' calls)"

text \<open>\<^verbatim>\<open>InitBlockChain()\<close> followed by a sequence of \<^verbatim>\<open>AddBlock\<close> calls.\<close>

definition run_ledger ::
  "(byte list \<Rightarrow> array16) \<Rightarrow> go_int \<Rightarrow> call list \<Rightarrow> (panic + Blockchain) option" where
  "run_ledger md5_Sum initialNonce calls =
     (case InitBlockChain md5_Sum initialNonce of
        None \<Rightarrow> None
      | Some chain \<Rightarrow> AddBlocks md5_Sum chain calls)"

text \<open>Every block but the first names its predecessor's hash.\<close>

fun linked :: "Block list \<Rightarrow> bool" where
  "linked [] = True"
| "linked [b] = True"
| "linked (p # b # bs) = (PrevHash b = Hash p \<and> linked (b # bs))"

subsection \<open>Sample inputs\<close>

text \<open>A stand-in for \<^verbatim>\<open>md5.Sum\<close> on which the definitions can be run: 1 when the low
  byte of the nonce in the transcript is 2, and 7 more than the sum of the bytes
  otherwise.\<close>

definition sample_Sum :: "byte list \<Rightarrow> array16" where
  "sample_Sum bs =
     (if 16 \<le> length bs \<and> bs ! (length bs - 9) = 2 then 1
      else of_nat (7 + sum_list (map unat bs)))"

definition sample_block :: Block where
  "sample_block = \<lparr>Hash = [], Data = ''B1'', PrevHash = ''p'', Nonce = 4711, Transactions = []\<rparr>"

text \<open>A \<^verbatim>\<open>ProofOfWork\<close> value with a target of its own (the struct and its fields are
  exported), small enough for the first two nonces to miss it.\<close>

definition sample_pow :: ProofOfWork where
  "sample_pow = \<lparr>Block = sample_block, Target = 3\<rparr>"


section \<open>Auxiliary facts\<close>

subsection \<open>Bytes and big integers\<close>

lemma length_slice16: "length (slice16 a) = 16"
  by (simp add: slice16_def)

lemma length_PutUint64: "length (PutUint64 v) = 8"
  by (simp add: PutUint64_def)

lemma SetBytes_snoc: "SetBytes (bs @ [b]) = SetBytes bs * 256 + uint b"
  by (simp add: SetBytes_def)

lemma SetBytes_bounds: "0 \<le> SetBytes bs \<and> SetBytes bs < 256 ^ length bs"
proof (induction bs rule: rev_induct)
  case Nil
  show ?case by (simp add: SetBytes_def)
next
  case (snoc b bs)
  have "uint b < 256" using uint_bounded [of b] by simp
  moreover have "0 \<le> uint b" by simp
  moreover from snoc have "SetBytes bs + 1 \<le> 256 ^ length bs" by simp
  then have "(SetBytes bs + 1) * 256 \<le> 256 ^ length bs * 256"
    by (rule mult_right_mono) simp
  ultimately show ?case using snoc by (simp add: SetBytes_snoc algebra_simps)
qed

lemma SetBytes_slice16_less: "SetBytes (slice16 a) < 2 ^ 128"
proof -
  have "SetBytes (slice16 a) < 256 ^ 16"
    using SetBytes_bounds [of "slice16 a"] by (simp add: length_slice16)
  then show ?thesis by simp
qed

text \<open>Reading the sixteen bytes of a \<^verbatim>\<open>[16]byte\<close> back gives the value of the word
  that stands for it.\<close>

lemma uint_byte_of_drop_bit:
  "uint (ucast (drop_bit k (a :: array16)) :: byte) = int (unat a div 2 ^ k mod 256)"
proof -
  have "unat (ucast (drop_bit k a) :: byte) = unat (drop_bit k a) mod 256"
    by (simp add: unsigned_ucast_eq take_bit_eq_mod)
  also have "unat (drop_bit k a) = unat a div 2 ^ k"
    by (subst unat_drop_bit_eq) (simp add: drop_bit_eq_div)
  finally show ?thesis by (simp only: uint_nat)
qed

lemma digit_step:
  fixes x :: nat
  shows "x div (2 ^ k * 256) * 256 + x div 2 ^ k mod 256 = x div 2 ^ k"
proof -
  have "x div (2 ^ k * 256) = x div 2 ^ k div 256"
    by (rule div_mult2_eq)
  then show ?thesis by simp
qed

lemma digit_step_int:
  fixes x :: nat
  assumes "j = k + 8"
  shows "int (x div 2 ^ j) * 256 + int (x div 2 ^ k mod 256) = int (x div 2 ^ k)"
proof -
  have "x div 2 ^ j = x div (2 ^ k * 256)"
    by (simp add: assms power_add)
  then have "x div 2 ^ j * 256 + x div 2 ^ k mod 256 = x div 2 ^ k"
    by (simp only: digit_step)
  then have "int (x div 2 ^ j * 256 + x div 2 ^ k mod 256) = int (x div 2 ^ k)"
    by (rule arg_cong)
  then show ?thesis by (simp only: of_nat_add of_nat_mult of_nat_numeral)
qed

lemma SetBytes_slice16: "SetBytes (slice16 a) = uint a"
proof -
  define x where "x = unat a"
  have "x < 2 ^ 128" using unsigned_less [of a, where 'a = nat] by (simp add: x_def)
  then have "x div 2 ^ 120 < 256"
    by (simp add: less_mult_imp_div_less)
  then have top: "0 * 256 + int (x div 2 ^ 120 mod 256) = int (x div 2 ^ 120)"
    by simp
  have last: "int (x div 2 ^ 8) * 256 + int (x div 2 ^ 0 mod 256) = int x"
    using digit_step_int [of 8 0 x] by simp
  have s112: "int (x div 2 ^ 120) * 256 + int (x div 2 ^ 112 mod 256) = int (x div 2 ^ 112)"
    by (rule digit_step_int) simp
  have s104: "int (x div 2 ^ 112) * 256 + int (x div 2 ^ 104 mod 256) = int (x div 2 ^ 104)"
    by (rule digit_step_int) simp
  have s96: "int (x div 2 ^ 104) * 256 + int (x div 2 ^ 96 mod 256) = int (x div 2 ^ 96)"
    by (rule digit_step_int) simp
  have s88: "int (x div 2 ^ 96) * 256 + int (x div 2 ^ 88 mod 256) = int (x div 2 ^ 88)"
    by (rule digit_step_int) simp
  have s80: "int (x div 2 ^ 88) * 256 + int (x div 2 ^ 80 mod 256) = int (x div 2 ^ 80)"
    by (rule digit_step_int) simp
  have s72: "int (x div 2 ^ 80) * 256 + int (x div 2 ^ 72 mod 256) = int (x div 2 ^ 72)"
    by (rule digit_step_int) simp
  have s64: "int (x div 2 ^ 72) * 256 + int (x div 2 ^ 64 mod 256) = int (x div 2 ^ 64)"
    by (rule digit_step_int) simp
  have s56: "int (x div 2 ^ 64) * 256 + int (x div 2 ^ 56 mod 256) = int (x div 2 ^ 56)"
    by (rule digit_step_int) simp
  have s48: "int (x div 2 ^ 56) * 256 + int (x div 2 ^ 48 mod 256) = int (x div 2 ^ 48)"
    by (rule digit_step_int) simp
  have s40: "int (x div 2 ^ 48) * 256 + int (x div 2 ^ 40 mod 256) = int (x div 2 ^ 40)"
    by (rule digit_step_int) simp
  have s32: "int (x div 2 ^ 40) * 256 + int (x div 2 ^ 32 mod 256) = int (x div 2 ^ 32)"
    by (rule digit_step_int) simp
  have s24: "int (x div 2 ^ 32) * 256 + int (x div 2 ^ 24 mod 256) = int (x div 2 ^ 24)"
    by (rule digit_step_int) simp
  have s16: "int (x div 2 ^ 24) * 256 + int (x div 2 ^ 16 mod 256) = int (x div 2 ^ 16)"
    by (rule digit_step_int) simp
  have s8: "int (x div 2 ^ 16) * 256 + int (x div 2 ^ 8 mod 256) = int (x div 2 ^ 8)"
    by (rule digit_step_int) simp
  have "SetBytes (slice16 a) = int x"
    unfolding SetBytes_def slice16_def foldl.simps uint_byte_of_drop_bit x_def [symmetric]
    using uint_byte_of_drop_bit [of 0 a]
    by (simp only: drop_bit_0 id_apply x_def [symmetric] top s112 s104 s96 s88 s80 s72 s64 s56 s48 s40 s32 s24 s16 s8 last)
  then show ?thesis by (simp only: x_def uint_nat)
qed

lemma ComputeData_layout:
  "ComputeData pow nonce =
     bytes_of_string (PrevHash (Block pow)) @ bytes_of_string (Data (Block pow)) @
     PutUint64 nonce @ PutUint64 (of_nat Difficulty)"
  by (simp add: ComputeData_def write_at_def Let_def length_PutUint64)

lemma ucast_drop_bit_byte:
  "(ucast (drop_bit k (v :: 64 word)) :: byte) = of_nat (unat v div 2 ^ k mod 256)"
proof -
  have "(ucast (drop_bit k v) :: byte) = of_nat (unat (drop_bit k v))"
    by simp
  also have "unat (drop_bit k v) = unat v div 2 ^ k"
    by (subst unat_drop_bit_eq) (simp add: drop_bit_eq_div)
  also have "(of_nat (unat v div 2 ^ k) :: byte) = of_nat (unat v div 2 ^ k mod 256)"
    by (simp add: word_of_nat_eq_iff take_bit_eq_mod)
  finally show ?thesis .
qed

lemma PutUint64_big_endian: "PutUint64 v = big_endian8 (unat v)"
  using ucast_drop_bit_byte [of 56 v] ucast_drop_bit_byte [of 48 v] ucast_drop_bit_byte [of 40 v]
    ucast_drop_bit_byte [of 32 v] ucast_drop_bit_byte [of 24 v] ucast_drop_bit_byte [of 16 v]
    ucast_drop_bit_byte [of 8 v] ucast_drop_bit_byte [of 0 v]
  by (simp add: PutUint64_def big_endian8_def)

subsection \<open>The mining loop\<close>

lemma Cmp_less: "Cmp x y = - 1 \<longleftrightarrow> x < y"
  by (simp add: Cmp_def)

lemma MineBlock_loop_unfold:
  "MineBlock_loop md5_Sum pow n =
     (if meets_target md5_Sum pow n then Some (n, digest_at md5_Sum pow n)
      else MineBlock_loop md5_Sum pow (n + 1))"
  by (subst MineBlock_loop.simps)
     (simp add: Let_def Cmp_less meets_target_def digest_at_def)


lemma MineBlock_loop_sound:
  assumes "MineBlock_loop md5_Sum pow k = Some r"
  shows "meets_target md5_Sum pow (fst r) \<and> snd r = digest_at md5_Sum pow (fst r)"
proof (rule MineBlock_loop.raw_induct
    [where P = "\<lambda>m p n r. meets_target m p (fst r) \<and> snd r = digest_at m p (fst r)", OF _ assms],
    goal_cases)
  case (1 loop m p n r)
  show ?case
  proof (cases "meets_target m p n")
    case True
    with 1(2) show ?thesis
      by (auto simp: Let_def Cmp_less meets_target_def digest_at_def)
  next
    case False
    with 1(2) have "loop m p (n + 1) = Some r"
      by (simp add: Let_def Cmp_less meets_target_def digest_at_def)
    then show ?thesis by (rule 1(1))
  qed
qed

lemma MineBlock_loop_first:
  assumes "meets_target md5_Sum pow n" and "unat k \<le> unat n"
    and "\<forall>m. unat k \<le> unat m \<and> unat m < unat n \<longrightarrow> \<not> meets_target md5_Sum pow m"
  shows "MineBlock_loop md5_Sum pow k = Some (n, digest_at md5_Sum pow n)"
  using assms
proof (induction "unat n - unat k" arbitrary: k)
  case 0
  then have "k = n" by (simp add: word_unat_eq_iff)
  with "0.prems"(1) show ?case by (subst MineBlock_loop_unfold) simp
next
  case (Suc d)
  then have lt: "unat k < unat n" by simp
  with Suc.prems(3) have nm: "\<not> meets_target md5_Sum pow k" by simp
  have "unat n < 2 ^ 64" using unsigned_less [of n] by simp
  with lt have su: "unat (k + 1) = unat k + 1"
    by (simp add: unat_word_ariths)
  have "MineBlock_loop md5_Sum pow (k + 1) = Some (n, digest_at md5_Sum pow n)"
  proof (rule Suc.hyps(1))
    show "d = unat n - unat (k + 1)" using Suc.hyps(2) su by simp
    show "meets_target md5_Sum pow n" by (rule Suc.prems(1))
    show "unat (k + 1) \<le> unat n" using lt su by simp
    show "\<forall>m. unat (k + 1) \<le> unat m \<and> unat m < unat n \<longrightarrow> \<not> meets_target md5_Sum pow m"
      using Suc.prems(3) su by simp
  qed
  with nm show ?case by (subst MineBlock_loop_unfold) simp
qed

lemma MineBlock_finds_first:
  assumes "meets_target md5_Sum pow m"
  shows "\<exists>n0. meets_target md5_Sum pow n0 \<and>
           (\<forall>k. unat k < unat n0 \<longrightarrow> \<not> meets_target md5_Sum pow k) \<and>
           MineBlock md5_Sum pow = Some (n0, digest_at md5_Sum pow n0)"
proof -
  let ?hit = "\<lambda>i. \<exists>k. unat k = i \<and> meets_target md5_Sum pow k"
  define j where "j = (LEAST i. ?hit i)"
  have ex: "?hit (unat m)" using assms by blast
  have "?hit j"
    unfolding j_def by (rule LeastI [of ?hit, OF ex])
  then obtain n0 where n0: "unat n0 = j" "meets_target md5_Sum pow n0" by blast
  have least: "\<not> meets_target md5_Sum pow k" if "unat k < unat n0" for k
  proof
    assume "meets_target md5_Sum pow k"
    then have "?hit (unat k)" by blast
    then have "j \<le> unat k"
      unfolding j_def by (rule Least_le [of ?hit])
    with that n0(1) show False by simp
  qed
  have "MineBlock_loop md5_Sum pow 0 = Some (n0, digest_at md5_Sum pow n0)"
    by (rule MineBlock_loop_first) (use n0(2) least in auto)
  with n0(2) least show ?thesis by (auto simp: MineBlock_def)
qed

lemma MineBlock_least:
  assumes "MineBlock md5_Sum pow = Some (n, h)"
  shows "\<forall>m. unat m < unat n \<longrightarrow> \<not> meets_target md5_Sum pow m"
proof -
  from assms have "meets_target md5_Sum pow n"
    using MineBlock_loop_sound [of md5_Sum pow 0 "(n, h)"] by (simp add: MineBlock_def)
  from MineBlock_finds_first [OF this] assms show ?thesis by auto
qed

lemma MineBlock_None:
  assumes "\<forall>m. \<not> meets_target md5_Sum pow m"
  shows "MineBlock md5_Sum pow = None"
proof (cases "MineBlock md5_Sum pow")
  case None then show ?thesis .
next
  case (Some r)
  then have "meets_target md5_Sum pow (fst r)"
    using MineBlock_loop_sound [of md5_Sum pow 0 r] by (simp add: MineBlock_def)
  with assms show ?thesis by blast
qed

lemma Target_NewProofOfWork: "Target (NewProofOfWork block) = 2 ^ 246"
  by (simp add: NewProofOfWork_def Difficulty_def push_bit_eq_mult)

lemma meets_target_NewProofOfWork: "meets_target md5_Sum (NewProofOfWork block) nonce"
proof -
  have "SetBytes (slice16 (md5_Sum (ComputeData (NewProofOfWork block) nonce))) < 2 ^ 128"
    by (rule SetBytes_slice16_less)
  also have "(2::int) ^ 128 < 2 ^ 246" by simp
  finally show ?thesis
    by (simp add: meets_target_def digest_at_def Target_NewProofOfWork)
qed

lemma MineBlock_NewProofOfWork:
  "MineBlock md5_Sum (NewProofOfWork block) =
     Some (0, digest_at md5_Sum (NewProofOfWork block) 0)"
  unfolding MineBlock_def
  by (subst MineBlock_loop_unfold) (simp add: meets_target_NewProofOfWork)

lemma Validate_meets_target:
  "Validate md5_Sum pow \<longleftrightarrow> meets_target md5_Sum pow (Nonce (Block pow))"
  by (simp add: Validate_def Let_def Cmp_less meets_target_def digest_at_def)

lemma ComputeData_transcript:
  "ComputeData pow nonce =
     computeTranscript (bytes_of_string (PrevHash (Block pow))) (bytes_of_string (Data (Block pow)))
       (unat nonce) Difficulty"
proof -
  have "unat (of_nat Difficulty :: 64 word) = Difficulty"
    by (simp add: Difficulty_def)
  then show ?thesis
    by (simp add: ComputeData_layout computeTranscript_def PutUint64_big_endian)
qed

lemma CreateBlock_eq:
  "CreateBlock md5_Sum initialNonce data prevHash transactions =
     Some \<lparr>Hash = string_of_bytes
                    (slice16 (md5_Sum (computeTranscript (bytes_of_string prevHash)
                       (bytes_of_string data) 0 Difficulty))),
           Data = data, PrevHash = prevHash, Nonce = 0, Transactions = transactions\<rparr>"
proof -
  let ?b = "\<lparr>Hash = [], Data = data, PrevHash = prevHash, Nonce = initialNonce,
             Transactions = transactions\<rparr>"
  have "MineBlock md5_Sum (NewProofOfWork ?b) = Some (0, digest_at md5_Sum (NewProofOfWork ?b) 0)"
    by (rule MineBlock_NewProofOfWork)
  moreover have "digest_at md5_Sum (NewProofOfWork ?b) 0 =
      slice16 (md5_Sum (computeTranscript (bytes_of_string prevHash) (bytes_of_string data)
        0 Difficulty))"
    by (simp add: digest_at_def ComputeData_transcript NewProofOfWork_def)
  ultimately show ?thesis
    by (simp add: CreateBlock_def Let_def)
qed

lemma meets_target_cong:
  assumes "\<And>n. ComputeData q n = ComputeData p n" and "Target q = Target p"
  shows "meets_target md5_Sum q n = meets_target md5_Sum p n"
    and "digest_at md5_Sum q n = digest_at md5_Sum p n"
  using assms by (simp_all add: meets_target_def digest_at_def)

lemma MineBlock_cong:
  assumes cd: "\<And>n. ComputeData q n = ComputeData p n" and tg: "Target q = Target p"
  shows "MineBlock md5_Sum q = MineBlock md5_Sum p"
proof (cases "\<exists>m. meets_target md5_Sum p m")
  case True
  then obtain m where m: "meets_target md5_Sum p m" by blast
  then have mq: "meets_target md5_Sum q m" by (simp add: meets_target_cong [OF cd tg])
  from MineBlock_finds_first [OF m] obtain a where
    a: "meets_target md5_Sum p a" "\<forall>k. unat k < unat a \<longrightarrow> \<not> meets_target md5_Sum p k"
       "MineBlock md5_Sum p = Some (a, digest_at md5_Sum p a)" by blast
  from MineBlock_finds_first [OF mq] obtain b where
    b: "meets_target md5_Sum q b" "\<forall>k. unat k < unat b \<longrightarrow> \<not> meets_target md5_Sum q k"
       "MineBlock md5_Sum q = Some (b, digest_at md5_Sum q b)" by blast
  have "\<not> unat a < unat b" using a(1) b(2) by (auto simp: meets_target_cong [OF cd tg])
  moreover have "\<not> unat b < unat a" using b(1) a(2) by (auto simp: meets_target_cong [OF cd tg])
  ultimately have "a = b" by (simp add: word_unat_eq_iff)
  with a(3) b(3) show ?thesis by (simp add: meets_target_cong [OF cd tg])
next
  case False
  then have "\<forall>m. \<not> meets_target md5_Sum p m" by blast
  moreover from this have "\<forall>m. \<not> meets_target md5_Sum q m"
    by (simp add: meets_target_cong [OF cd tg])
  ultimately show ?thesis by (simp add: MineBlock_None)
qed

lemma ComputeData_Nonce_update:
  "ComputeData (pow\<lparr>Block := (Block pow)\<lparr>Nonce := x\<rparr>\<rparr>) n = ComputeData pow n"
  by (simp add: ComputeData_layout)

lemma ComputeData_Hash_Nonce_update:
  "ComputeData (pow\<lparr>Block := (Block pow)\<lparr>Hash := h, Nonce := x\<rparr>\<rparr>) n = ComputeData pow n"
  by (simp add: ComputeData_layout)

lemma sint_order_unat:
  fixes m n :: "64 word"
  assumes "0 \<le> sint m" and "sint m < sint n"
  shows "unat m < unat n"
proof -
  have "sint m < 2 ^ 64" "sint n < 2 ^ 64"
    using sint_less [of m] sint_less [of n] by simp_all
  with assms have "uint m = sint m" "uint n = sint n"
    by (simp_all add: uint_sint take_bit_int_eq_self)
  with assms(2) have "uint m < uint n" by simp
  then have "m < n" by (simp only: word_less_def)
  then show ?thesis by (simp only: word_less_nat_alt)
qed

subsection \<open>Blocks and chains\<close>

lemma InitBlockChain_eq:
  "InitBlockChain md5_Sum initialNonce =
     Some \<lparr>Blocks =
       [\<lparr>Hash = string_of_bytes (slice16 (md5_Sum (computeTranscript
                  (bytes_of_string []) (bytes_of_string ''Genesis'') 0 Difficulty))),
         Data = ''Genesis'', PrevHash = [], Nonce = 0,
         Transactions =
           [\<lparr>Sender = ''Coinbase'', Receiver = ''Genesis'', Amount = 0, Coinbase = True\<rparr>]\<rparr>]\<rparr>"
  by (simp add: InitBlockChain_def Genesis_def CreateBlock_eq)

lemma AddBlock_eq:
  assumes "Blocks chain \<noteq> []"
  shows "AddBlock md5_Sum initialNonce chain data coinbaseRcpt transactions =
     Some (Inr (chain\<lparr>Blocks := Blocks chain @
       [\<lparr>Hash = string_of_bytes (slice16 (md5_Sum (computeTranscript
                  (bytes_of_string (Hash (last (Blocks chain)))) (bytes_of_string data)
                  0 Difficulty))),
         Data = data, PrevHash = Hash (last (Blocks chain)), Nonce = 0,
         Transactions =
           \<lparr>Sender = ''Coinbase'', Receiver = coinbaseRcpt, Amount = 10, Coinbase = True\<rparr>
           # transactions\<rparr>]\<rparr>))"
  using assms by (simp add: AddBlock_def CreateBlock_eq Let_def last_conv_nth)

lemma linked_snoc:
  "bs \<noteq> [] \<Longrightarrow> linked (bs @ [b]) \<longleftrightarrow> linked bs \<and> PrevHash b = Hash (last bs)"
  by (induction bs rule: linked.induct) auto

lemma linked_iff_nth:
  "linked bs \<longleftrightarrow>
     (\<forall>i. 0 < i \<and> i < length bs \<longrightarrow> PrevHash (bs ! i) = Hash (bs ! (i - 1)))"
proof (induction bs rule: linked.induct)
  case 1
  show ?case by simp
next
  case (2 b)
  show ?case by simp
next
  case (3 p b bs)
  have "(\<forall>i. 0 < i \<and> i < length (p # b # bs) \<longrightarrow>
            PrevHash ((p # b # bs) ! i) = Hash ((p # b # bs) ! (i - 1))) \<longleftrightarrow>
        PrevHash b = Hash p \<and>
        (\<forall>j. 0 < j \<and> j < length (b # bs) \<longrightarrow>
            PrevHash ((b # bs) ! j) = Hash ((b # bs) ! (j - 1)))"
    (is "?L \<longleftrightarrow> ?H \<and> ?R")
  proof
    assume L: ?L
    have ?H using L [rule_format, of 1] by simp
    moreover have ?R
    proof (intro allI impI)
      fix j assume "0 < j \<and> j < length (b # bs)"
      then show "PrevHash ((b # bs) ! j) = Hash ((b # bs) ! (j - 1))"
        using L [rule_format, of "Suc j"] by (cases j) simp_all
    qed
    ultimately show "?H \<and> ?R" ..
  next
    assume HR: "?H \<and> ?R"
    show ?L
    proof (intro allI impI)
      fix i assume i: "0 < i \<and> i < length (p # b # bs)"
      then obtain j where j: "i = Suc j" by (cases i) auto
      show "PrevHash ((p # b # bs) ! i) = Hash ((p # b # bs) ! (i - 1))"
      proof (cases j)
        case 0
        with j HR show ?thesis by simp
      next
        case (Suc k)
        with j i HR [THEN conjunct2, rule_format, of j] show ?thesis by simp
      qed
    qed
  qed
  with 3 show ?case by simp
qed

lemma AddBlocks_invariant:
  assumes "Blocks chain \<noteq> []" and "linked (Blocks chain)"
  shows "\<exists>chain'. AddBlocks md5_Sum chain calls = Some (Inr chain') \<and>
           linked (Blocks chain') \<and>
           length (Blocks chain') = length (Blocks chain) + length calls \<and>
           take (length (Blocks chain)) (Blocks chain') = Blocks chain"
  using assms
proof (induction calls arbitrary: chain)
  case Nil
  then show ?case by simp
next
  case (Cons call calls)
  obtain s d r t where call: "call = (s, d, r, t)" by (cases call) auto
  let ?nb = "\<lparr>Hash = string_of_bytes (slice16 (md5_Sum (computeTranscript
                  (bytes_of_string (Hash (last (Blocks chain)))) (bytes_of_string d)
                  0 Difficulty))),
         Data = d, PrevHash = Hash (last (Blocks chain)), Nonce = 0,
         Transactions =
           \<lparr>Sender = ''Coinbase'', Receiver = r, Amount = 10, Coinbase = True\<rparr> # t\<rparr>"
  let ?c = "chain\<lparr>Blocks := Blocks chain @ [?nb]\<rparr>"
  have step: "AddBlock md5_Sum s chain d r t = Some (Inr ?c)"
    by (rule AddBlock_eq [OF Cons.prems(1)])
  have ne: "Blocks ?c \<noteq> []" by simp
  have li: "linked (Blocks ?c)"
    using Cons.prems by (simp add: linked_snoc)
  from Cons.IH [OF ne li] obtain chain' where
    c': "AddBlocks md5_Sum ?c calls = Some (Inr chain')" "linked (Blocks chain')"
        "length (Blocks chain') = length (Blocks ?c) + length calls"
        "take (length (Blocks ?c)) (Blocks chain') = Blocks ?c"
    by blast
  have "take (length (Blocks chain)) (Blocks chain') =
        take (length (Blocks chain)) (take (length (Blocks ?c)) (Blocks chain'))"
    by (simp add: min_def)
  also have "\<dots> = Blocks chain" by (simp only: c'(4)) simp
  finally have "take (length (Blocks chain)) (Blocks chain') = Blocks chain" .
  with c' step call show ?case by simp
qed

section \<open>The claims\<close>

subsection \<open>Proof of work\<close>

text \<open>
  Claim C2. \<^verbatim>\<open>MineBlock\<close> tries the nonces \<open>0, 1, 2, \<dots>\<close> in turn. When it returns
  \<open>(n, h)\<close>, then \<open>h\<close> is the digest of the transcript at \<open>n\<close>, \<open>h\<close> read as an
  unsigned big integer is strictly below the target, and no nonce tried before \<open>n\<close>
  (none of \<open>0, \<dots>, n - 1\<close>) is: \<open>n\<close> is the first, and the smallest, such nonce. It does
  return as soon as some nonce meets the target, which is always so for the
  \<^verbatim>\<open>ProofOfWork\<close> that \<^verbatim>\<open>NewProofOfWork\<close> builds of a block. The order of the
  search is that of \<^verbatim>\<open>nonce++\<close> from 0, the unsigned reading of the 64 bits; it is the
  order of the integers on the non-negative nonces.
\<close>

theorem MineBlock_returns_first_nonce:
  "(MineBlock md5_Sum pow = Some (n, h) \<longrightarrow>
      h = slice16 (md5_Sum (ComputeData pow n)) \<and>
      SetBytes h < Target pow \<and>
      (\<forall>m. unat m < unat n \<longrightarrow>
         \<not> SetBytes (slice16 (md5_Sum (ComputeData pow m))) < Target pow) \<and>
      (\<forall>m. 0 \<le> sint m \<and> sint m < sint n \<longrightarrow>
         \<not> SetBytes (slice16 (md5_Sum (ComputeData pow m))) < Target pow)) \<and>
   ((\<exists>m. SetBytes (slice16 (md5_Sum (ComputeData pow m))) < Target pow) \<longrightarrow>
      (\<exists>n h. MineBlock md5_Sum pow = Some (n, h))) \<and>
   (\<exists>n h. MineBlock md5_Sum (NewProofOfWork block) = Some (n, h))"
proof -
  have A: "h = slice16 (md5_Sum (ComputeData pow n)) \<and> SetBytes h < Target pow"
    if "MineBlock md5_Sum pow = Some (n, h)"
    using MineBlock_loop_sound [of md5_Sum pow 0 "(n, h)"] that
    by (simp add: MineBlock_def meets_target_def digest_at_def)
  have B: "\<not> SetBytes (slice16 (md5_Sum (ComputeData pow m))) < Target pow"
    if "MineBlock md5_Sum pow = Some (n, h)" "unat m < unat n" for m
    using MineBlock_least [OF that(1)] that(2)
    by (simp add: meets_target_def digest_at_def)
  have C: "\<not> SetBytes (slice16 (md5_Sum (ComputeData pow m))) < Target pow"
    if "MineBlock md5_Sum pow = Some (n, h)" "0 \<le> sint m" "sint m < sint n" for m
    using B [OF that(1) sint_order_unat [OF that(2,3)]] .
  have D: "\<exists>n h. MineBlock md5_Sum pow = Some (n, h)"
    if "SetBytes (slice16 (md5_Sum (ComputeData pow m))) < Target pow" for m
  proof -
    from that have "meets_target md5_Sum pow m" by (simp add: meets_target_def digest_at_def)
    from MineBlock_finds_first [OF this] show ?thesis by blast
  qed
  have E: "\<exists>n h. MineBlock md5_Sum (NewProofOfWork block) = Some (n, h)"
    by (simp add: MineBlock_NewProofOfWork)
  from A B C D E show ?thesis by blast
qed

theorem MineBlock_returns_first_nonce_witness:
  "MineBlock sample_Sum sample_pow = Some (2, slice16 1) \<and>
   unat (1 :: go_int) < unat (2 :: go_int) \<and>
   (0::int) \<le> sint (1 :: go_int) \<and> sint (1 :: go_int) < sint (2 :: go_int) \<and>
   \<not> SetBytes (slice16 (sample_Sum (ComputeData sample_pow 1))) < Target sample_pow \<and>
   SetBytes (slice16 (sample_Sum (ComputeData sample_pow 2))) < Target sample_pow"
proof -
  have run: "MineBlock sample_Sum sample_pow = Some (2, slice16 1)"
    by code_simp
  note first = MineBlock_returns_first_nonce [of sample_Sum sample_pow 2 "slice16 1" sample_block]
  from first run have h: "slice16 1 = slice16 (sample_Sum (ComputeData sample_pow 2))"
    and lt: "SetBytes (slice16 1) < Target sample_pow"
    and least: "\<forall>m. unat m < unat (2 :: go_int) \<longrightarrow>
      \<not> SetBytes (slice16 (sample_Sum (ComputeData sample_pow m))) < Target sample_pow"
    by blast+
  have "unat (1 :: go_int) < unat (2 :: go_int)" by simp
  with least
  have "\<not> SetBytes (slice16 (sample_Sum (ComputeData sample_pow 1))) < Target sample_pow"
    by blast
  moreover from lt
  have "SetBytes (slice16 (sample_Sum (ComputeData sample_pow 2))) < Target sample_pow"
    by (simp only: h [symmetric])
  ultimately show ?thesis using run by simp
qed

text \<open>
  Claim C3. The buffer \<^verbatim>\<open>ComputeData\<close> returns is the previous hash, the data, the
  nonce (its 64 bits, \<^verbatim>\<open>uint64(nonce)\<close>) as eight bytes most significant first, and the
  difficulty constant (10) as eight bytes most significant first, in this order. Every step of
  the mining loop and the check of \<^verbatim>\<open>Validate\<close> hash the buffer of this one function.
\<close>

theorem ComputeData_is_the_transcript:
  "ComputeData pow nonce =
     computeTranscript (bytes_of_string (PrevHash (Block pow)))
       (bytes_of_string (Data (Block pow))) (unat nonce) Difficulty \<and>
   big_endian8 Difficulty = [0, 0, 0, 0, 0, 0, 0, 10] \<and>
   MineBlock md5_Sum pow = MineBlock_loop md5_Sum pow 0 \<and>
   MineBlock_loop md5_Sum pow nonce =
     (if SetBytes (slice16 (md5_Sum (ComputeData pow nonce))) < Target pow
      then Some (nonce, slice16 (md5_Sum (ComputeData pow nonce)))
      else MineBlock_loop md5_Sum pow (nonce + 1)) \<and>
   Validate md5_Sum pow =
     (SetBytes (slice16 (md5_Sum (ComputeData pow (Nonce (Block pow))))) < Target pow)"
proof -
  have "MineBlock_loop md5_Sum pow nonce =
     (if SetBytes (slice16 (md5_Sum (ComputeData pow nonce))) < Target pow
      then Some (nonce, slice16 (md5_Sum (ComputeData pow nonce)))
      else MineBlock_loop md5_Sum pow (nonce + 1))"
    using MineBlock_loop_unfold [of md5_Sum pow nonce]
    by (simp add: meets_target_def digest_at_def)
  moreover have "Validate md5_Sum pow =
     (SetBytes (slice16 (md5_Sum (ComputeData pow (Nonce (Block pow))))) < Target pow)"
    by (simp add: Validate_meets_target meets_target_def digest_at_def)
  moreover have "big_endian8 Difficulty = [0, 0, 0, 0, 0, 0, 0, 10]"
    by (simp add: big_endian8_def Difficulty_def)
  ultimately show ?thesis
    using ComputeData_transcript [of pow nonce] by (simp add: MineBlock_def)
qed

text \<open>
  Claim C5. The target of \<^verbatim>\<open>NewProofOfWork\<close> is \<open>2 ^ (256 - Difficulty)\<close>. As a function
  of the difficulty \<open>d\<close>, for the difficulties \<open>d \<le> 256\<close> that have a target, it is
  \<open>2 ^ (256 - d)\<close> and strictly antitone: \<open>d1 < d2\<close> gives a target for \<open>d1\<close> strictly
  above that for \<open>d2\<close>.
\<close>

theorem target_antitone_in_difficulty:
  "Target (NewProofOfWork block) = 2 ^ (256 - Difficulty) \<and>
   target_for Difficulty = Some (Target (NewProofOfWork block)) \<and>
   (d \<le> 256 \<longrightarrow> target_for d = Some (2 ^ (256 - d))) \<and>
   (d1 < d2 \<and> d2 \<le> 256 \<longrightarrow>
      (\<exists>t1 t2. target_for d1 = Some t1 \<and> target_for d2 = Some t2 \<and> t2 < t1))"
proof -
  have "(2::int) ^ (256 - d2) < 2 ^ (256 - d1)" if "d1 < d2" "d2 \<le> 256"
    using that by (simp add: power_strict_increasing_iff)
  then show ?thesis
    by (simp add: NewProofOfWork_def target_for_def push_bit_eq_mult Difficulty_def)
qed

theorem target_antitone_in_difficulty_witness:
  "(10::nat) < 11 \<and> (11::nat) \<le> 256 \<and>
   target_for 10 = Some (2 ^ 246) \<and> target_for 11 = Some (2 ^ 245) \<and>
   (2::int) ^ 245 < 2 ^ 246"
  using target_antitone_in_difficulty [of sample_block 10 10 11]
  by (simp add: target_for_def push_bit_eq_mult)

text \<open>
  Claim C9. With \<^verbatim>\<open>Difficulty = 10\<close> the target is \<open>2 ^ 246\<close>; a 16-byte digest read as an
  unsigned integer is at most \<open>2 ^ 128 - 1\<close> (the value of sixteen bytes \<open>0xff\<close>), which is
  strictly below the target. So
  \<^verbatim>\<open>Validate\<close> is true of every block, whatever its data, previous hash and stored nonce,
  and \<^verbatim>\<open>MineBlock\<close> returns the nonce 0, with the digest of the transcript at nonce 0,
  from its first iteration.
\<close>

theorem difficulty_10_makes_every_digest_valid:
  "Target (NewProofOfWork block) = 2 ^ 246 \<and>
   SetBytes (slice16 (md5_Sum bs)) \<le> 2 ^ 128 - 1 \<and>
   SetBytes (slice16 (- 1)) = 2 ^ 128 - 1 \<and>
   (2::int) ^ 128 - 1 < 2 ^ 246 \<and>
   Validate md5_Sum (NewProofOfWork block) \<and>
   MineBlock md5_Sum (NewProofOfWork block) =
     Some (0, slice16 (md5_Sum (ComputeData (NewProofOfWork block) 0)))"
proof -
  have "SetBytes (slice16 (md5_Sum bs)) \<le> 2 ^ 128 - 1"
    using SetBytes_slice16_less [of "md5_Sum bs"] by simp
  moreover have "SetBytes (slice16 (- 1)) = 2 ^ 128 - 1"
    by (simp add: SetBytes_slice16 unsigned_minus_1_eq_mask mask_eq_exp_minus_1)
  moreover have "Validate md5_Sum (NewProofOfWork block)"
    by (simp add: Validate_meets_target meets_target_NewProofOfWork)
  moreover have "MineBlock md5_Sum (NewProofOfWork block) =
     Some (0, slice16 (md5_Sum (ComputeData (NewProofOfWork block) 0)))"
    using MineBlock_NewProofOfWork [of md5_Sum block] by (simp add: digest_at_def)
  ultimately show ?thesis
    by (simp add: Target_NewProofOfWork)
qed

text \<open>
  Claim C4. \<^verbatim>\<open>Validate\<close> is exactly this check: it computes the transcript again from
  the nonce stored in the block, hashes it, reads the digest as an unsigned big integer
  and answers whether that integer is strictly below the target; it reads nothing else of
  the block. A block that carries the nonce and the hash \<^verbatim>\<open>MineBlock\<close> returned for it
  is valid, for any target. In particular \<^verbatim>\<open>CreateBlock\<close> returns a block that stores
  the nonce and the hash \<^verbatim>\<open>MineBlock\<close> found for it, and that block is valid.
\<close>

theorem mined_block_validates:
  "(Validate md5_Sum pow \<longleftrightarrow>
      SetBytes (slice16 (md5_Sum (ComputeData pow (Nonce (Block pow))))) < Target pow) \<and>
   (MineBlock md5_Sum pow = Some (nonce, hash) \<longrightarrow>
      Validate md5_Sum
        (pow\<lparr>Block := (Block pow)\<lparr>Hash := string_of_bytes hash, Nonce := nonce\<rparr>\<rparr>)) \<and>
   (\<exists>block n h.
      MineBlock md5_Sum
        (NewProofOfWork \<lparr>Hash = [], Data = data, PrevHash = prevHash, Nonce = initialNonce,
           Transactions = transactions\<rparr>) = Some (n, h) \<and>
      CreateBlock md5_Sum initialNonce data prevHash transactions = Some block \<and>
      Nonce block = n \<and> Hash block = string_of_bytes h \<and>
      Validate md5_Sum (NewProofOfWork block))"
proof -
  have check: "Validate md5_Sum pow \<longleftrightarrow>
      SetBytes (slice16 (md5_Sum (ComputeData pow (Nonce (Block pow))))) < Target pow"
    by (simp add: Validate_meets_target meets_target_def digest_at_def)
  have mined: "Validate md5_Sum
      (pow\<lparr>Block := (Block pow)\<lparr>Hash := string_of_bytes hash, Nonce := nonce\<rparr>\<rparr>)"
    if "MineBlock md5_Sum pow = Some (nonce, hash)"
  proof -
    from that have "meets_target md5_Sum pow nonce"
      using MineBlock_loop_sound [of md5_Sum pow 0 "(nonce, hash)"] by (simp add: MineBlock_def)
    then show ?thesis
      by (simp add: Validate_meets_target meets_target_def digest_at_def
          ComputeData_Hash_Nonce_update)
  qed
  let ?b = "\<lparr>Hash = [], Data = data, PrevHash = prevHash, Nonce = initialNonce,
             Transactions = transactions\<rparr>"
  let ?h = "digest_at md5_Sum (NewProofOfWork ?b) 0"
  have mb: "MineBlock md5_Sum (NewProofOfWork ?b) = Some (0, ?h)"
    by (rule MineBlock_NewProofOfWork)
  then have cb: "CreateBlock md5_Sum initialNonce data prevHash transactions =
      Some (?b\<lparr>Hash := string_of_bytes ?h, Nonce := 0\<rparr>)"
    by (simp add: CreateBlock_def Let_def)
  have va: "Validate md5_Sum (NewProofOfWork (?b\<lparr>Hash := string_of_bytes ?h, Nonce := 0\<rparr>))"
    by (simp only: Validate_meets_target meets_target_NewProofOfWork)
  have made: "\<exists>block n h.
      MineBlock md5_Sum (NewProofOfWork ?b) = Some (n, h) \<and>
      CreateBlock md5_Sum initialNonce data prevHash transactions = Some block \<and>
      Nonce block = n \<and> Hash block = string_of_bytes h \<and>
      Validate md5_Sum (NewProofOfWork block)"
    using mb cb va
    by (intro exI [of _ "?b\<lparr>Hash := string_of_bytes ?h, Nonce := 0\<rparr>"] exI [of _ 0]
        exI [of _ ?h]) simp
  from check mined made show ?thesis by blast
qed

theorem mined_block_validates_witness:
  "MineBlock sample_Sum sample_pow = Some (2, slice16 1) \<and>
   Validate sample_Sum
     (sample_pow\<lparr>Block := (Block sample_pow)\<lparr>Hash := string_of_bytes (slice16 1), Nonce := 2\<rparr>\<rparr>) \<and>
   Nonce (Block sample_pow) = 4711 \<and>
   \<not> SetBytes (slice16 (sample_Sum (ComputeData sample_pow 4711))) < Target sample_pow \<and>
   \<not> Validate sample_Sum sample_pow"
proof -
  note mv = mined_block_validates [of sample_Sum sample_pow 2 "slice16 1" "[]" "[]" 0 "[]"]
  have run: "MineBlock sample_Sum sample_pow = Some (2, slice16 1)"
    by code_simp
  have stored: "Nonce (Block sample_pow) = 4711"
    by (simp add: sample_pow_def sample_block_def)
  have miss: "\<not> SetBytes (slice16 (sample_Sum (ComputeData sample_pow 4711))) < Target sample_pow"
    by code_simp
  from mv have "Validate sample_Sum sample_pow \<longleftrightarrow>
      SetBytes (slice16 (sample_Sum (ComputeData sample_pow (Nonce (Block sample_pow)))))
        < Target sample_pow"
    by blast
  with miss stored have "\<not> Validate sample_Sum sample_pow"
    by simp
  moreover from mv run have "Validate sample_Sum
     (sample_pow\<lparr>Block := (Block sample_pow)\<lparr>Hash := string_of_bytes (slice16 1), Nonce := 2\<rparr>\<rparr>)"
    by blast
  ultimately show ?thesis using run stored miss by blast
qed

text \<open>
  Claim C10. \<^verbatim>\<open>MineBlock\<close> does not read the nonce stored in the block: the search starts
  at 0 whatever start nonce \<^verbatim>\<open>CreateBlock\<close> drew. The nonce and the hash of a block made
  by \<^verbatim>\<open>CreateBlock\<close> are a function of its data, its previous hash and the difficulty
  constant only: two blocks made from the same data and previous hash, with any start
  nonces and any transactions, get the same nonce and the same hash.
\<close>

theorem MineBlock_ignores_stored_nonce:
  "MineBlock md5_Sum pow = MineBlock_loop md5_Sum pow 0 \<and>
   MineBlock md5_Sum (pow\<lparr>Block := (Block pow)\<lparr>Nonce := x\<rparr>\<rparr>) = MineBlock md5_Sum pow \<and>
   map_option (\<lambda>b. (Nonce b, Hash b)) (CreateBlock md5_Sum seed1 data prevHash txs1) =
   map_option (\<lambda>b. (Nonce b, Hash b)) (CreateBlock md5_Sum seed2 data prevHash txs2) \<and>
   (\<exists>b. CreateBlock md5_Sum seed1 data prevHash txs1 = Some b \<and>
        Nonce b = 0 \<and>
        Hash b = string_of_bytes (slice16 (md5_Sum
          (computeTranscript (bytes_of_string prevHash) (bytes_of_string data) 0 Difficulty))))"
proof -
  have "MineBlock md5_Sum (pow\<lparr>Block := (Block pow)\<lparr>Nonce := x\<rparr>\<rparr>) = MineBlock md5_Sum pow"
    by (rule MineBlock_cong) (simp_all add: ComputeData_Nonce_update)
  moreover have "MineBlock md5_Sum pow = MineBlock_loop md5_Sum pow 0"
    by (simp add: MineBlock_def)
  ultimately show ?thesis by (simp add: CreateBlock_eq)
qed

subsection \<open>The ledger\<close>

text \<open>
  Claim C6. \<^verbatim>\<open>InitBlockChain\<close> returns a chain of exactly one block; its previous hash
  is empty, its data is \<open>Genesis\<close>, and its only transaction is the coinbase transaction
  from \<open>Coinbase\<close> to \<open>Genesis\<close> of amount 0.
\<close>

theorem InitBlockChain_genesis:
  "\<exists>g. InitBlockChain md5_Sum initialNonce = Some \<lparr>Blocks = [g]\<rparr> \<and>
        PrevHash g = [] \<and> Data g = ''Genesis'' \<and>
        Transactions g =
          [\<lparr>Sender = ''Coinbase'', Receiver = ''Genesis'', Amount = 0, Coinbase = True\<rparr>]"
proof -
  let ?g = "\<lparr>Hash = string_of_bytes (slice16 (md5_Sum (computeTranscript
                  (bytes_of_string []) (bytes_of_string ''Genesis'') 0 Difficulty))),
         Data = ''Genesis'', PrevHash = [], Nonce = 0,
         Transactions =
           [\<lparr>Sender = ''Coinbase'', Receiver = ''Genesis'', Amount = 0, Coinbase = True\<rparr>]\<rparr>"
  have "InitBlockChain md5_Sum initialNonce = Some \<lparr>Blocks = [?g]\<rparr>"
    by (rule InitBlockChain_eq)
  then show ?thesis
    by (intro exI [of _ ?g]) simp
qed

text \<open>
  Claim C7. On a ledger that has a block, \<^verbatim>\<open>AddBlock\<close> appends exactly one block: the
  chain grows by one, and the transactions of the new block are the coinbase transaction
  (from \<open>Coinbase\<close> to the reward recipient, amount 10, the flag set) followed by the
  caller's transactions in their order.
\<close>

theorem AddBlock_prepends_coinbase:
  "Blocks chain \<noteq> [] \<Longrightarrow>
   \<exists>newBlock.
     AddBlock md5_Sum initialNonce chain data coinbaseRcpt transactions =
       Some (Inr (chain\<lparr>Blocks := Blocks chain @ [newBlock]\<rparr>)) \<and>
     Transactions newBlock =
       \<lparr>Sender = ''Coinbase'', Receiver = coinbaseRcpt, Amount = 10, Coinbase = True\<rparr>
       # transactions \<and>
     Data newBlock = data \<and>
     length (Blocks chain @ [newBlock]) = length (Blocks chain) + 1"
proof -
  assume ne: "Blocks chain \<noteq> []"
  let ?nb = "\<lparr>Hash = string_of_bytes (slice16 (md5_Sum (computeTranscript
                  (bytes_of_string (Hash (last (Blocks chain)))) (bytes_of_string data)
                  0 Difficulty))),
         Data = data, PrevHash = Hash (last (Blocks chain)), Nonce = 0,
         Transactions =
           \<lparr>Sender = ''Coinbase'', Receiver = coinbaseRcpt, Amount = 10, Coinbase = True\<rparr>
           # transactions\<rparr>"
  have "AddBlock md5_Sum initialNonce chain data coinbaseRcpt transactions =
       Some (Inr (chain\<lparr>Blocks := Blocks chain @ [?nb]\<rparr>))"
    by (rule AddBlock_eq [OF ne])
  then show ?thesis
    by (intro exI [of _ ?nb]) simp
qed

theorem AddBlock_prepends_coinbase_witness:
  "\<exists>chain newBlock.
     InitBlockChain sample_Sum 17 = Some chain \<and>
     Blocks chain \<noteq> [] \<and>
     AddBlock sample_Sum 42 chain ''B1'' ''Alice'' [] =
       Some (Inr (chain\<lparr>Blocks := Blocks chain @ [newBlock]\<rparr>)) \<and>
     Transactions newBlock =
       [\<lparr>Sender = ''Coinbase'', Receiver = ''Alice'', Amount = 10, Coinbase = True\<rparr>] \<and>
     length (Blocks chain @ [newBlock]) = 2"
proof -
  obtain chain where init: "InitBlockChain sample_Sum 17 = Some chain"
    and len: "length (Blocks chain) = 1"
    by (simp add: InitBlockChain_eq)
  then have ne: "Blocks chain \<noteq> []" by auto
  from AddBlock_prepends_coinbase [OF ne, of sample_Sum 42 "''B1''" "''Alice''" "[]"]
  show ?thesis using init ne len by auto
qed

text \<open>
  Claim C1. After \<^verbatim>\<open>InitBlockChain\<close> and any sequence of \<^verbatim>\<open>AddBlock\<close> calls the first
  block of the chain is the genesis block, and every later block names the hash of the
  block before it as its previous hash. \<^verbatim>\<open>AddBlock\<close> on a chain with this property
  keeps the blocks it had, gives the new block the hash of the old tail as its previous
  hash, and the chain has the property again.
\<close>

theorem chain_linkage_invariant:
  "(\<exists>chain g.
      run_ledger md5_Sum seed calls = Some (Inr chain) \<and>
      Genesis md5_Sum seed = Some g \<and> PrevHash g = [] \<and>
      Blocks chain ! 0 = g \<and>
      length (Blocks chain) = length calls + 1 \<and>
      (\<forall>i. 0 < i \<and> i < length (Blocks chain) \<longrightarrow>
         PrevHash (Blocks chain ! i) = Hash (Blocks chain ! (i - 1)))) \<and>
   (Blocks c \<noteq> [] \<and> linked (Blocks c) \<longrightarrow>
      (\<exists>newBlock.
         AddBlock md5_Sum initialNonce c data coinbaseRcpt transactions =
           Some (Inr (c\<lparr>Blocks := Blocks c @ [newBlock]\<rparr>)) \<and>
         PrevHash newBlock = Hash (last (Blocks c)) \<and>
         linked (Blocks c @ [newBlock])))"
proof -
  let ?g = "\<lparr>Hash = string_of_bytes (slice16 (md5_Sum (computeTranscript
                  (bytes_of_string []) (bytes_of_string ''Genesis'') 0 Difficulty))),
         Data = ''Genesis'', PrevHash = [], Nonce = 0,
         Transactions =
           [\<lparr>Sender = ''Coinbase'', Receiver = ''Genesis'', Amount = 0, Coinbase = True\<rparr>]\<rparr>"
  let ?c0 = "\<lparr>Blocks = [?g]\<rparr>"
  have init: "InitBlockChain md5_Sum seed = Some ?c0"
    by (rule InitBlockChain_eq)
  have gen: "Genesis md5_Sum seed = Some ?g"
    by (simp add: Genesis_def CreateBlock_eq)
  have "Blocks ?c0 \<noteq> []" "linked (Blocks ?c0)" by simp_all
  from AddBlocks_invariant [OF this, of md5_Sum calls] obtain chain where
    ch: "AddBlocks md5_Sum ?c0 calls = Some (Inr chain)" "linked (Blocks chain)"
        "length (Blocks chain) = length (Blocks ?c0) + length calls"
        "take (length (Blocks ?c0)) (Blocks chain) = Blocks ?c0"
    by blast
  have run: "run_ledger md5_Sum seed calls = Some (Inr chain)"
    using init ch(1) by (simp add: run_ledger_def)
  have len: "length (Blocks chain) = length calls + 1"
    using ch(3) by simp
  from ch(4) have "take 1 (Blocks chain) = [?g]" by simp
  then have "hd (Blocks chain) = ?g"
    by (cases "Blocks chain") simp_all
  moreover from len have "Blocks chain \<noteq> []" by auto
  ultimately have first: "Blocks chain ! 0 = ?g" by (simp add: hd_conv_nth)
  have idx: "\<forall>i. 0 < i \<and> i < length (Blocks chain) \<longrightarrow>
         PrevHash (Blocks chain ! i) = Hash (Blocks chain ! (i - 1))"
    using ch(2) by (simp only: linked_iff_nth)
  have part1: "\<exists>chain g.
      run_ledger md5_Sum seed calls = Some (Inr chain) \<and>
      Genesis md5_Sum seed = Some g \<and> PrevHash g = [] \<and>
      Blocks chain ! 0 = g \<and>
      length (Blocks chain) = length calls + 1 \<and>
      (\<forall>i. 0 < i \<and> i < length (Blocks chain) \<longrightarrow>
         PrevHash (Blocks chain ! i) = Hash (Blocks chain ! (i - 1)))"
    using run gen first len idx by (intro exI [of _ chain] exI [of _ ?g]) simp
  have part2: "\<exists>newBlock.
         AddBlock md5_Sum initialNonce c data coinbaseRcpt transactions =
           Some (Inr (c\<lparr>Blocks := Blocks c @ [newBlock]\<rparr>)) \<and>
         PrevHash newBlock = Hash (last (Blocks c)) \<and>
         linked (Blocks c @ [newBlock])"
    if "Blocks c \<noteq> []" "linked (Blocks c)"
  proof -
    let ?nb = "\<lparr>Hash = string_of_bytes (slice16 (md5_Sum (computeTranscript
                  (bytes_of_string (Hash (last (Blocks c)))) (bytes_of_string data)
                  0 Difficulty))),
         Data = data, PrevHash = Hash (last (Blocks c)), Nonce = 0,
         Transactions =
           \<lparr>Sender = ''Coinbase'', Receiver = coinbaseRcpt, Amount = 10, Coinbase = True\<rparr>
           # transactions\<rparr>"
    have "AddBlock md5_Sum initialNonce c data coinbaseRcpt transactions =
           Some (Inr (c\<lparr>Blocks := Blocks c @ [?nb]\<rparr>))"
      by (rule AddBlock_eq [OF that(1)])
    moreover have "linked (Blocks c @ [?nb])"
      using that by (simp add: linked_snoc)
    ultimately show ?thesis
      by (intro exI [of _ ?nb]) simp
  qed
  from part1 part2 show ?thesis by blast
qed

theorem chain_linkage_invariant_witness:
  "(\<exists>chain.
      run_ledger sample_Sum 17 [(42, ''B1'', ''Alice'', []), (7, ''B2'', ''Bob'', [])] =
        Some (Inr chain) \<and>
      length (Blocks chain) = 3 \<and>
      PrevHash (Blocks chain ! 0) = [] \<and>
      PrevHash (Blocks chain ! 1) = Hash (Blocks chain ! 0) \<and>
      PrevHash (Blocks chain ! 2) = Hash (Blocks chain ! 1)) \<and>
   Blocks \<lparr>Blocks = [sample_block]\<rparr> \<noteq> [] \<and>
   linked (Blocks \<lparr>Blocks = [sample_block]\<rparr>) \<and>
   (\<exists>newBlock.
      AddBlock sample_Sum 42 \<lparr>Blocks = [sample_block]\<rparr> ''B1'' ''Alice'' [] =
        Some (Inr \<lparr>Blocks = [sample_block, newBlock]\<rparr>) \<and>
      PrevHash newBlock = Hash sample_block \<and>
      linked [sample_block, newBlock])"
proof -
  note inv = chain_linkage_invariant [of sample_Sum 17
      "[(42, ''B1'', ''Alice'', []), (7, ''B2'', ''Bob'', [])]"
      "\<lparr>Blocks = [sample_block]\<rparr>" 42 "''B1''" "''Alice''" "[]"]
  from inv obtain chain g where
    ch: "run_ledger sample_Sum 17 [(42, ''B1'', ''Alice'', []), (7, ''B2'', ''Bob'', [])] =
           Some (Inr chain)"
        "Genesis sample_Sum 17 = Some g" "PrevHash g = []" "Blocks chain ! 0 = g"
        "length (Blocks chain) = 3"
        "\<forall>i. 0 < i \<and> i < length (Blocks chain) \<longrightarrow>
           PrevHash (Blocks chain ! i) = Hash (Blocks chain ! (i - 1))"
    by auto
  from ch(6) [rule_format, of 1] ch(6) [rule_format, of 2] ch(5)
  have "PrevHash (Blocks chain ! 1) = Hash (Blocks chain ! 0)"
       "PrevHash (Blocks chain ! 2) = Hash (Blocks chain ! 1)"
    by simp_all
  with ch have part1: "\<exists>chain.
      run_ledger sample_Sum 17 [(42, ''B1'', ''Alice'', []), (7, ''B2'', ''Bob'', [])] =
        Some (Inr chain) \<and>
      length (Blocks chain) = 3 \<and>
      PrevHash (Blocks chain ! 0) = [] \<and>
      PrevHash (Blocks chain ! 1) = Hash (Blocks chain ! 0) \<and>
      PrevHash (Blocks chain ! 2) = Hash (Blocks chain ! 1)"
    by auto
  have pre: "Blocks \<lparr>Blocks = [sample_block]\<rparr> \<noteq> []"
    "linked (Blocks \<lparr>Blocks = [sample_block]\<rparr>)"
    by simp_all
  with inv have part2: "\<exists>newBlock.
      AddBlock sample_Sum 42 \<lparr>Blocks = [sample_block]\<rparr> ''B1'' ''Alice'' [] =
        Some (Inr \<lparr>Blocks = [sample_block, newBlock]\<rparr>) \<and>
      PrevHash newBlock = Hash sample_block \<and>
      linked [sample_block, newBlock]"
    by simp
  from part1 pre part2 show ?thesis by blast
qed

end
